theory Spec2Isabelle
  imports Complex_Main "HOL-Library.Multiset"
begin

section \<open>Task types and their static settings (bot/task_manager.py)\<close>

text \<open>The enumeration \<^verbatim>\<open>TaskType\<close>, in the order of the source.\<close>

datatype TaskType =
  VERIFY | EVB | EVP | TREASURE | INV | FOOD | RETAINER | NB | NBW | NP | NPW | CMD

text \<open>The dataclass \<^verbatim>\<open>TaskSetting\<close>; its fields \<^verbatim>\<open>rank\<close> and \<^verbatim>\<open>limit\<close> carry the
  prefix \<open>ts_\<close> because \<^verbatim>\<open>Task\<close> has a field \<^verbatim>\<open>rank\<close> of its own.\<close>

record TaskSetting =
  ts_rank :: int
  ts_limit :: int

text \<open>The dictionary \<^verbatim>\<open>TASK_SETTINGS\<close>, entry by entry as the source lists it.\<close>

definition TASK_SETTINGS :: "TaskType \<rightharpoonup> TaskSetting" where
  "TASK_SETTINGS = map_of
     [(VERIFY, \<lparr>ts_rank = -999, ts_limit = 999\<rparr>),
      (CMD, \<lparr>ts_rank = -998, ts_limit = 999\<rparr>),
      (EVB, \<lparr>ts_rank = 2, ts_limit = 1\<rparr>),
      (EVP, \<lparr>ts_rank = 2, ts_limit = 1\<rparr>),
      (TREASURE, \<lparr>ts_rank = 1, ts_limit = 999\<rparr>),
      (INV, \<lparr>ts_rank = 1, ts_limit = 2\<rparr>),
      (FOOD, \<lparr>ts_rank = 1, ts_limit = 1\<rparr>),
      (RETAINER, \<lparr>ts_rank = 1, ts_limit = 3\<rparr>),
      (NB, \<lparr>ts_rank = 3, ts_limit = 1\<rparr>),
      (NP, \<lparr>ts_rank = 3, ts_limit = 1\<rparr>),
      (NBW, \<lparr>ts_rank = 4, ts_limit = 1\<rparr>),
      (NPW, \<lparr>ts_rank = 4, ts_limit = 1\<rparr>)]"

text \<open>\<^verbatim>\<open>setting = TASK_SETTINGS.get(task_type); return setting.rank if setting else 5\<close>\<close>

definition get_default_rank :: "TaskType \<Rightarrow> int" where
  "get_default_rank task_type =
     (case TASK_SETTINGS task_type of Some setting \<Rightarrow> ts_rank setting | None \<Rightarrow> 5)"

text \<open>\<^verbatim>\<open>setting = TASK_SETTINGS.get(task_type); return setting.limit if setting else 1\<close>\<close>

definition get_task_limit :: "TaskType \<Rightarrow> int" where
  "get_task_limit task_type =
     (case TASK_SETTINGS task_type of Some setting \<Rightarrow> ts_limit setting | None \<Rightarrow> 1)"

section \<open>Tasks\<close>

text \<open>The dataclass \<^verbatim>\<open>Task\<close>. Times are Unix timestamps in milliseconds; Python holds them
  in floats, the model in \<^typ>\<open>real\<close>. The field \<^verbatim>\<open>func\<close>, the opaque asynchronous action, is
  not a field of the record: what awaiting it does is supplied by the environment of the
  cycle that dispatches the task (see \<open>env\<close> below).\<close>

record Task =
  expire_at :: real
  info :: string
  tag :: TaskType
  rank :: int
  retry :: int

text \<open>The generated constructor followed by \<^verbatim>\<open>__post_init__\<close>: a rank equal to 5, the
  default of the field, is replaced by the default rank of the tag.\<close>

definition post_init :: "Task \<Rightarrow> Task" where
  "post_init t = (if rank t = 5 then t\<lparr>rank := get_default_rank (tag t)\<rparr> else t)"

definition new_Task :: "real \<Rightarrow> string \<Rightarrow> TaskType \<Rightarrow> int \<Rightarrow> int \<Rightarrow> Task" where
  "new_Task e i tg rk rt =
     post_init \<lparr>expire_at = e, info = i, tag = tg, rank = rk, retry = rt\<rparr>"

text \<open>\<^verbatim>\<open>Task.is_expired(time_now_ms)\<close> with the time given: \<^verbatim>\<open>self.expire_at < time_now_ms\<close>.\<close>

definition is_expired :: "Task \<Rightarrow> real \<Rightarrow> bool" where
  "is_expired t time_now_ms \<longleftrightarrow> expire_at t < time_now_ms"

text \<open>\<^verbatim>\<open>Task.__lt__\<close>: comparison by rank alone.\<close>

definition task_lt :: "Task \<Rightarrow> Task \<Rightarrow> bool" where
  "task_lt a b \<longleftrightarrow> rank a < rank b"

section \<open>The task manager\<close>

text \<open>The state of a \<^verbatim>\<open>TaskManager\<close>. Python's queue is a list of references to mutable
  \<^verbatim>\<open>Task\<close> objects: \<open>queue\<close> holds the references (natural numbers) and \<open>tasks\<close> is the
  store that maps a reference to the object's current fields, so that the in-place updates
  \<^verbatim>\<open>task.rank -= 1\<close> and \<^verbatim>\<open>task.retry += 1\<close> act on the object whichever list positions
  refer to it. \<open>callback\<close> says whether \<^verbatim>\<open>on_task_complete\<close> was given; \<open>lock\<close> is
  \<^verbatim>\<open>self._lock.locked()\<close>.\<close>

record TaskManager =
  queue :: "nat list"
  task_type_counter :: "TaskType \<rightharpoonup> int"
  last_execute_at :: real
  gap :: int
  bias :: int
  retry_count :: int
  callback :: bool
  lock :: bool
  running :: bool
  tasks :: "nat \<Rightarrow> Task"

text \<open>\<^verbatim>\<open>TaskManager.__init__\<close>; the store of task objects is the caller's.\<close>

definition init_manager :: "bool \<Rightarrow> int \<Rightarrow> int \<Rightarrow> int \<Rightarrow> (nat \<Rightarrow> Task) \<Rightarrow> TaskManager" where
  "init_manager cb task_gap task_bias rc h =
     \<lparr>queue = [], task_type_counter = Map.empty, last_execute_at = 0, gap = task_gap,
      bias = task_bias, retry_count = rc, callback = cb, lock = False, running = False,
      tasks = h\<rparr>"

text \<open>\<^verbatim>\<open>self._task_type_counter.get(t, d)\<close>\<close>

definition counter_get :: "TaskManager \<Rightarrow> TaskType \<Rightarrow> int \<Rightarrow> int" where
  "counter_get s t d = (case task_type_counter s t of Some c \<Rightarrow> c | None \<Rightarrow> d)"

definition queue_size :: "TaskManager \<Rightarrow> nat" where
  "queue_size s = length (queue s)"

text \<open>\<^verbatim>\<open>add_task\<close>: the task is the object at reference \<open>r\<close>. Returns the new state and
  the boolean result.\<close>

definition add_task :: "TaskManager \<Rightarrow> nat \<Rightarrow> TaskManager \<times> bool" where
  "add_task s r =
     (let tg = tag (tasks s r);
          current_count = counter_get s tg 0
      in if current_count \<ge> get_task_limit tg then (s, False)
         else (s\<lparr>queue := queue s @ [r],
                 task_type_counter := (task_type_counter s)(tg \<mapsto> current_count + 1)\<rparr>, True))"

text \<open>\<^verbatim>\<open>_priority_aging\<close>: the loop \<^verbatim>\<open>for task in self._queue: task.rank -= 1\<close> visits the
  list positions in order and decrements the object each position refers to.\<close>

definition age_one :: "nat \<Rightarrow> (nat \<Rightarrow> Task) \<Rightarrow> (nat \<Rightarrow> Task)" where
  "age_one r h = h(r := (h r)\<lparr>rank := rank (h r) - 1\<rparr>)"

definition priority_aging :: "TaskManager \<Rightarrow> TaskManager" where
  "priority_aging s = s\<lparr>tasks := fold age_one (queue s) (tasks s)\<rparr>"

text \<open>\<^verbatim>\<open>self._queue.sort()\<close>: Python's list sort is stable and compares with \<^verbatim>\<open>__lt__\<close>,
  that is by rank; \<^const>\<open>sort_key\<close> is the stable insertion sort of the library.\<close>

definition sort_queue :: "TaskManager \<Rightarrow> TaskManager" where
  "sort_queue s = s\<lparr>queue := sort_key (\<lambda>r. rank (tasks s r)) (queue s)\<rparr>"

text \<open>\<^verbatim>\<open>task = self._queue.pop(0)\<close> and the counter update
  \<^verbatim>\<open>max(0, self._task_type_counter.get(task.tag, 1) - 1)\<close>. On an empty list \<^verbatim>\<open>pop\<close>
  raises; the loop calls it only when the queue is not empty, and the model returns
  \<open>None\<close> there.\<close>

definition pop_first :: "TaskManager \<Rightarrow> (TaskManager \<times> nat) option" where
  "pop_first s =
     (case queue s of
        [] \<Rightarrow> None
      | r # rest \<Rightarrow>
          let tg = tag (tasks s r)
          in Some (s\<lparr>queue := rest,
                     task_type_counter :=
                       (task_type_counter s)(tg \<mapsto> max 0 (counter_get s tg 1 - 1))\<rparr>, r))"

text \<open>One pass of the body of the \<^verbatim>\<open>while\<close> loop up to the pop: sort, age, pop.\<close>

definition select_pass :: "TaskManager \<Rightarrow> (TaskManager \<times> nat) option" where
  "select_pass s = pop_first (priority_aging (sort_queue s))"

text \<open>\<^verbatim>\<open>expected_execute_time = self._last_execute_at + self._gap + self._bias / 2\<close>\<close>

definition expected_execute_time :: "TaskManager \<Rightarrow> real" where
  "expected_execute_time s = last_execute_at s + real_of_int (gap s) + real_of_int (bias s) / 2"

section \<open>The execution cycle\<close>

text \<open>What the world contributes to one call of \<^verbatim>\<open>check_and_execute\<close>:
  \<open>clock k\<close> is the value of \<^verbatim>\<open>time.time() * 1000\<close> read in pass \<open>k\<close> of the selection
  loop (counted from 0), \<open>action r\<close> is what awaiting \<^verbatim>\<open>task.func()\<close> of the task at
  reference \<open>r\<close> does in this cycle, \<open>finished_at\<close> is the clock read right after the
  action returned, and \<open>callback_raises\<close> says whether the completion callback (the call or
  the awaited coroutine) raises.\<close>

datatype awaited = Returned | Raised

record env =
  clock :: "nat \<Rightarrow> real"
  action :: "nat \<Rightarrow> awaited"
  finished_at :: real
  callback_raises :: bool

text \<open>The two expiry checks of the loop body, for the task just popped.\<close>

definition discards :: "TaskManager \<Rightarrow> nat \<Rightarrow> real \<Rightarrow> bool" where
  "discards s r time_now_ms \<longleftrightarrow>
     is_expired (tasks s r) time_now_ms \<or> is_expired (tasks s r) (expected_execute_time s)"

text \<open>The synchronous part of \<^verbatim>\<open>_execute_next\<close>: the \<^verbatim>\<open>while self._queue\<close> loop from its
  head to the first \<^verbatim>\<open>await\<close>. A pass that pops an expired task takes \<^verbatim>\<open>continue\<close> and
  the loop starts over on the rest of the queue; the loop ends with the task to dispatch, or
  with nothing once the queue is empty.\<close>

function select_task :: "(nat \<Rightarrow> real) \<Rightarrow> TaskManager \<Rightarrow> TaskManager \<times> nat option" where
  "select_task clk s =
     (case select_pass s of
        None \<Rightarrow> (s, None)
      | Some (s', r) \<Rightarrow>
          if discards s' r (clk 0) then select_task (\<lambda>k. clk (Suc k)) s'
          else (s', Some r))"
  by pat_completeness auto
termination
proof (relation "measure (\<lambda>(clk, s). length (queue s))")
  show "wf (measure (\<lambda>(clk, s). length (queue s)))"
    by simp
next
  fix clk :: "nat \<Rightarrow> real" and s x2 s' r
  assume "select_pass s = Some x2" and "(s', r) = x2"
  then have "Suc (length (queue s')) = length (queue s)"
    by (auto simp: select_pass_def pop_first_def priority_aging_def sort_queue_def Let_def
        split: list.splits dest!: arg_cong [where f = length])
  then show "((\<lambda>k. clk (Suc k), s'), clk, s) \<in> measure (\<lambda>(clk, s). length (queue s))"
    by simp
qed

declare select_task.simps [simp del]

text \<open>The \<^verbatim>\<open>except Exception\<close> branch: retry while attempts remain. \<^verbatim>\<open>task.retry += 1\<close>
  updates the object in the store; the result of \<^verbatim>\<open>self.add_task(task)\<close> is ignored.\<close>

definition on_failure :: "TaskManager \<Rightarrow> nat \<Rightarrow> TaskManager" where
  "on_failure s r =
     (if retry (tasks s r) < retry_count s
      then fst (add_task
                 (s\<lparr>tasks := (tasks s)(r := (tasks s r)\<lparr>retry := retry (tasks s r) + 1\<rparr>)\<rparr>) r)
      else s)"

text \<open>The \<^verbatim>\<open>try\<close> statement of \<^verbatim>\<open>_execute_next\<close> for the selected task: the action is
  awaited; when it returns, \<^verbatim>\<open>_last_execute_at\<close> is set and the callback, if one is set, is
  called inside the same \<^verbatim>\<open>try\<close>, so an exception of the callback reaches the same
  \<^verbatim>\<open>except\<close> branch as an exception of the action.\<close>

definition run_task :: "env \<Rightarrow> TaskManager \<Rightarrow> nat \<Rightarrow> TaskManager" where
  "run_task e s r =
     (case action e r of
        Raised \<Rightarrow> on_failure s r
      | Returned \<Rightarrow>
          let s1 = s\<lparr>last_execute_at := finished_at e\<rparr>
          in if callback s1 \<and> callback_raises e then on_failure s1 r else s1)"

text \<open>\<^verbatim>\<open>_execute_next\<close> as a whole, with nothing else running during its awaits: the state
  after the call and the task whose action was invoked, if any.\<close>

definition execute_next :: "env \<Rightarrow> TaskManager \<Rightarrow> TaskManager \<times> nat option" where
  "execute_next e s =
     (case select_task (clock e) s of
        (s', None) \<Rightarrow> (s', None)
      | (s', Some r) \<Rightarrow> (run_task e s' r, Some r))"

text \<open>\<^verbatim>\<open>check_and_execute\<close>: return at once when the lock is held; otherwise take the lock,
  set \<^verbatim>\<open>_running\<close>, run \<^verbatim>\<open>_execute_next\<close>, and in the \<^verbatim>\<open>finally\<close> clause and on leaving
  \<^verbatim>\<open>async with\<close> reset \<^verbatim>\<open>_running\<close> and release the lock.\<close>

definition acquire :: "TaskManager \<Rightarrow> TaskManager" where
  "acquire s = s\<lparr>lock := True, running := True\<rparr>"

definition release :: "TaskManager \<Rightarrow> TaskManager" where
  "release s = s\<lparr>lock := False, running := False\<rparr>"

definition check_and_execute :: "env \<Rightarrow> TaskManager \<Rightarrow> TaskManager \<times> nat option" where
  "check_and_execute e s =
     (if lock s then (s, None)
      else case execute_next e (acquire s) of (s', d) \<Rightarrow> (release s', d))"

text \<open>The state other coroutines see while a cycle waits (pacing sleep, jitter sleep, the
  action itself): the lock is taken, the selection loop has run, the task in hand is
  \<open>r\<close>. \<open>None\<close> when the call does not reach an \<^verbatim>\<open>await\<close>.\<close>

definition suspended :: "(nat \<Rightarrow> real) \<Rightarrow> TaskManager \<Rightarrow> (TaskManager \<times> nat) option" where
  "suspended clk s =
     (if lock s then None
      else case select_task clk (acquire s) of
             (s', None) \<Rightarrow> None
           | (s', Some r) \<Rightarrow> Some (s', r))"

text \<open>The rest of the cycle once the action has been awaited in a suspended cycle.\<close>

definition resume :: "env \<Rightarrow> TaskManager \<Rightarrow> nat \<Rightarrow> TaskManager" where
  "resume e s r = release (run_task e s r)"

text \<open>\<^verbatim>\<open>clear\<close> and \<^verbatim>\<open>remove_by_type\<close> (the latter returns the number removed).\<close>

definition clear :: "TaskManager \<Rightarrow> TaskManager" where
  "clear s = s\<lparr>queue := [], task_type_counter := Map.empty\<rparr>"

definition remove_by_type :: "TaskManager \<Rightarrow> TaskType \<Rightarrow> TaskManager \<times> int" where
  "remove_by_type s task_type =
     (let initial_count = int (length (queue s));
          q = filter (\<lambda>r. tag (tasks s r) \<noteq> task_type) (queue s);
          removed = initial_count - int (length q)
      in (s\<lparr>queue := q, task_type_counter := (task_type_counter s)(task_type \<mapsto> 0)\<rparr>, removed))"

text \<open>A sequence of cycles, one environment per call of \<^verbatim>\<open>check_and_execute\<close>, with no
  other operation between them: the final state and the tasks dispatched, in order.\<close>

fun run_cycles :: "env list \<Rightarrow> TaskManager \<Rightarrow> TaskManager \<times> nat list" where
  "run_cycles [] s = (s, [])"
| "run_cycles (e # es) s =
     (case check_and_execute e s of
        (s', d) \<Rightarrow>
          (case run_cycles es s' of
             (s'', ds) \<Rightarrow> (s'', (case d of None \<Rightarrow> [] | Some r \<Rightarrow> [r]) @ ds)))"



text \<open>The number of tasks of a type in the queue, and the counter invariant.\<close>

definition pending_of :: "TaskManager \<Rightarrow> TaskType \<Rightarrow> nat" where
  "pending_of s t = length (filter (\<lambda>r. tag (tasks s r) = t) (queue s))"

definition counter_ok :: "TaskManager \<Rightarrow> bool" where
  "counter_ok s \<longleftrightarrow> (\<forall>t. counter_get s t 0 = int (pending_of s t))"

text \<open>Bookkeeping for the retry bound. \<open>budget s x\<close> bounds the dispatches the queued task
  \<open>x\<close> can still get: one, plus one for each retry it has left; \<open>total_budget\<close> sums it
  over the queue. \<open>tracked r s n\<close> relates a task to the number \<open>n\<close> of dispatches it has
  had: while it is queued its retry counter is \<open>n\<close>, within the bound, and once it is gone
  \<open>n\<close> is the bound plus one.\<close>

definition budget :: "TaskManager \<Rightarrow> nat \<Rightarrow> nat" where
  "budget s x = nat (retry_count s - retry (tasks s x)) + 1"

definition total_budget :: "TaskManager \<Rightarrow> nat" where
  "total_budget s = sum_list (map (budget s) (queue s))"


section \<open>Bot states and the controller (bot/event_manager.py, bot/player.py, bot/controller.py)\<close>

text \<open>The enumerations \<^verbatim>\<open>BotState\<close> and \<^verbatim>\<open>PlayerState\<close> (constructors of the latter carry
  the prefix \<open>P_\<close>), with their string values.\<close>

datatype BotState = INIT | RUNNING | DEFEATED | BLOCKED | BANNED | STOPPED

datatype PlayerState = P_INIT | P_RUNNING | P_DEFEATED | P_BLOCKED | P_BANNED | P_STOPPED

fun BotState_value :: "BotState \<Rightarrow> string" where
  "BotState_value INIT = ''init''"
| "BotState_value RUNNING = ''running''"
| "BotState_value DEFEATED = ''defeated''"
| "BotState_value BLOCKED = ''blocked''"
| "BotState_value BANNED = ''banned''"
| "BotState_value STOPPED = ''stopped''"

text \<open>\<^verbatim>\<open>PlayerState(value)\<close>: lookup of a member by value; \<open>None\<close> stands for the
  \<^verbatim>\<open>ValueError\<close> Python raises when no member has the value.\<close>

definition PlayerState_of_value :: "string \<Rightarrow> PlayerState option" where
  "PlayerState_of_value v =
     map_of [(''init'', P_INIT), (''running'', P_RUNNING), (''defeated'', P_DEFEATED),
             (''blocked'', P_BLOCKED), (''banned'', P_BANNED), (''stopped'', P_STOPPED)] v"

text \<open>The part of the controller \<^verbatim>\<open>update_state\<close> touches: \<^verbatim>\<open>self._current_state\<close>,
  \<^verbatim>\<open>self.player.state\<close>, and the coroutines \<^verbatim>\<open>self.event_manager.emit(state)\<close> handed to
  \<^verbatim>\<open>asyncio.create_task\<close> and not yet run (\<open>emits\<close>, oldest first). Handlers run only
  inside \<^verbatim>\<open>emit\<close>.\<close>

record Controller =
  current_state :: "BotState option"
  player_state :: PlayerState
  emits :: "BotState list"

datatype ctl_error = ValueError

definition update_state :: "Controller \<Rightarrow> BotState \<Rightarrow> ctl_error + Controller" where
  "update_state c new_state =
     (if current_state c \<noteq> Some new_state
      then (case PlayerState_of_value (BotState_value new_state) of
              None \<Rightarrow> Inl ValueError
            | Some p \<Rightarrow>
                Inr (c\<lparr>player_state := p, current_state := Some new_state,
                       emits := emits c @ [new_state]\<rparr>))
      else Inr c)"

section \<open>Concrete states used to evaluate the model\<close>

text \<open>A store in which every reference holds a fresh \<^verbatim>\<open>Food\<close> task built without a
  rank.\<close>

definition food_store :: "nat \<Rightarrow> Task" where
  "food_store = (\<lambda>r. new_Task 1000 ''food'' FOOD 5 0)"

text \<open>Three queued tasks, enqueued in the order 2, 1, 0: reference 0 is a \<^verbatim>\<open>Command\<close> task
  that expired at time 500, reference 1 a \<^verbatim>\<open>NewBattle\<close> task and reference 2 (like every
  other reference but 3) a \<^verbatim>\<open>NewBattleWindow\<close> task; reference 3 is an \<^verbatim>\<open>Inventory\<close>
  task not yet enqueued. The cycle \<open>e3\<close> runs at time 10000 with an action that returns.\<close>

definition store3 :: "nat \<Rightarrow> Task" where
  "store3 = (\<lambda>r. new_Task 900000 ''map'' NBW 5 0)
     (0 := new_Task 500 ''old'' CMD 5 0, 1 := new_Task 900000 ''battle'' NB 5 0,
      3 := new_Task 900000 ''sell'' INV 5 0)"

definition m3 :: TaskManager where
  "m3 = fst (add_task (fst (add_task (fst (add_task
           (init_manager True 2000 3000 2 store3) 2)) 1)) 0)"

definition e3 :: env where
  "e3 = \<lparr>clock = (\<lambda>k. 10000), action = (\<lambda>r. Returned), finished_at = 15000,
         callback_raises = False\<rparr>"

text \<open>A manager whose queue holds the \<^verbatim>\<open>Inventory\<close> task alone (retry bound 2), a cycle
  in which the action returns and the completion callback raises, and a cycle in which the
  action raises.\<close>

definition m_inv :: TaskManager where
  "m_inv = fst (add_task (init_manager True 2000 3000 2 store3) 3)"

definition e_cb :: env where
  "e_cb = \<lparr>clock = (\<lambda>k. 10000), action = (\<lambda>r. Returned), finished_at = 10500,
           callback_raises = True\<rparr>"

definition e_fail :: env where
  "e_fail = \<lparr>clock = (\<lambda>k. 10000), action = (\<lambda>r. Raised), finished_at = 10500,
             callback_raises = False\<rparr>"

section \<open>Properties\<close>

subsection \<open>Evaluation of the concrete states\<close>

lemmas eval_defs = store3_def m3_def e3_def add_task_def init_manager_def new_Task_def
  post_init_def get_default_rank_def get_task_limit_def TASK_SETTINGS_def counter_get_def
  Let_def select_pass_def sort_queue_def priority_aging_def pop_first_def age_one_def
  discards_def is_expired_def expected_execute_time_def

lemmas cycle_defs = check_and_execute_def execute_next_def acquire_def release_def
  run_task_def on_failure_def suspended_def select_task.simps

lemmas eval_defs2 = eval_defs m_inv_def e_cb_def e_fail_def

lemma m3_queue: "queue m3 = [2, 1, 0]"
  by (simp add: eval_defs)

lemma m3_pass1: "\<exists>s1. select_pass m3 = Some (s1, 0)"
  by (simp add: eval_defs)

lemma m3_select: "snd (select_task (clock e3) m3) = Some 1
   \<and> queue (fst (select_task (clock e3) m3)) = [2]
   \<and> rank (tasks (fst (select_task (clock e3) m3)) 2) = 2"
  by (simp add: select_task.simps eval_defs)

lemma m3_cycle: "snd (check_and_execute e3 m3) = Some 1
   \<and> queue (fst (check_and_execute e3 m3)) = [2]
   \<and> rank (tasks (fst (check_and_execute e3 m3)) 2) = 2 \<and> rank (tasks m3 2) = 4"
  by (simp add: check_and_execute_def execute_next_def acquire_def release_def run_task_def
      on_failure_def select_task.simps eval_defs)

subsection \<open>The store under aging\<close>


lemma fold_age_one_fields:
  "tag (fold age_one q h r) = tag (h r) \<and> retry (fold age_one q h r) = retry (h r)
   \<and> expire_at (fold age_one q h r) = expire_at (h r) \<and> info (fold age_one q h r) = info (h r)"
  by (induction q arbitrary: h) (auto simp: age_one_def)

lemma fold_age_one_rank:
  "rank (fold age_one q h r) = rank (h r) - int (count_list q r)"
  by (induction q arbitrary: h) (auto simp: age_one_def)

subsection \<open>One pass\<close>

lemma age_one_fields:
  "tag (age_one x h r) = tag (h r) \<and> retry (age_one x h r) = retry (h r)
   \<and> expire_at (age_one x h r) = expire_at (h r) \<and> info (age_one x h r) = info (h r)"
  by (simp add: age_one_def)

lemma select_pass_None: "select_pass s = None \<longleftrightarrow> queue s = []"
proof -
  have "sort_key (\<lambda>x. rank (tasks s x)) (queue s) = [] \<longleftrightarrow> queue s = []"
    using length_sort [of "\<lambda>x. rank (tasks s x)" "queue s"] by (metis length_0_conv)
  then show ?thesis
    by (auto simp: select_pass_def pop_first_def priority_aging_def sort_queue_def Let_def
        split: list.splits)
qed

lemma select_pass_Some:
  assumes "select_pass s = Some (s', r)"
  shows "sort_key (\<lambda>x. rank (tasks s x)) (queue s) = r # queue s'"
    and "tasks s' = fold age_one (r # queue s') (tasks s)"
    and "task_type_counter s' =
           (task_type_counter s)(tag (tasks s r) \<mapsto> max 0 (counter_get s (tag (tasks s r)) 1 - 1))"
    and "s' = s\<lparr>queue := queue s', task_type_counter := task_type_counter s', tasks := tasks s'\<rparr>"
proof -
  obtain rest where q: "sort_key (\<lambda>x. rank (tasks s x)) (queue s) = r # rest"
    and s': "s' = s\<lparr>queue := rest,
        task_type_counter := (task_type_counter s)(tag (tasks s r) \<mapsto>
           max 0 (counter_get s (tag (tasks s r)) 1 - 1)),
        tasks := fold age_one (r # rest) (tasks s)\<rparr>"
    using assms
    by (auto simp: select_pass_def pop_first_def priority_aging_def sort_queue_def Let_def
        counter_get_def fold_age_one_fields age_one_fields split: list.splits)
  show "sort_key (\<lambda>x. rank (tasks s x)) (queue s) = r # queue s'"
    using q s' by simp
  show "tasks s' = fold age_one (r # queue s') (tasks s)"
    using s' by simp
  show "task_type_counter s' =
           (task_type_counter s)(tag (tasks s r) \<mapsto> max 0 (counter_get s (tag (tasks s r)) 1 - 1))"
    using s' by simp
  show "s' = s\<lparr>queue := queue s', task_type_counter := task_type_counter s', tasks := tasks s'\<rparr>"
    using s' by simp
qed

lemma select_task_empty: "select_pass s = None \<Longrightarrow> select_task clk s = (s, None)"
  by (simp add: select_task.simps [of clk s])

lemma select_task_dispatch:
  "select_pass s = Some (s', r) \<Longrightarrow> \<not> discards s' r (clk 0) \<Longrightarrow> select_task clk s = (s', Some r)"
  by (simp add: select_task.simps [of clk s])

lemma select_task_discard:
  "select_pass s = Some (s', r) \<Longrightarrow> discards s' r (clk 0) \<Longrightarrow>
     select_task clk s = select_task (\<lambda>k. clk (Suc k)) s'"
  by (simp add: select_task.simps [of clk s])

text \<open>An invariant of the passes is an invariant of the loop.\<close>

lemma select_task_invariant:
  assumes "P s" and step: "\<And>s s' r. P s \<Longrightarrow> select_pass s = Some (s', r) \<Longrightarrow> P s'"
  shows "P (fst (select_task clk s))"
  using assms(1)
proof (induction clk s rule: select_task.induct)
  case (1 clk s)
  show ?case
  proof (cases "select_pass s")
    case None
    with 1 show ?thesis by (simp add: select_task_empty)
  next
    case (Some p)
    obtain s' r where p: "p = (s', r)" by (cases p)
    have P': "P s'" using step [OF "1.prems"] Some p by simp
    show ?thesis
    proof (cases "discards s' r (clk 0)")
      case True
      with 1 Some p P' show ?thesis by (simp add: select_task_discard)
    next
      case False
      with Some p P' show ?thesis by (simp add: select_task_dispatch)
    qed
  qed
qed

lemma select_task_frame:
  "lock (fst (select_task clk s)) = lock s \<and> running (fst (select_task clk s)) = running s
   \<and> last_execute_at (fst (select_task clk s)) = last_execute_at s
   \<and> gap (fst (select_task clk s)) = gap s \<and> bias (fst (select_task clk s)) = bias s
   \<and> retry_count (fst (select_task clk s)) = retry_count s
   \<and> callback (fst (select_task clk s)) = callback s"
proof (rule select_task_invariant [where P = "\<lambda>x. lock x = lock s \<and> running x = running s
   \<and> last_execute_at x = last_execute_at s \<and> gap x = gap s \<and> bias x = bias s
   \<and> retry_count x = retry_count s \<and> callback x = callback s"])
  show "lock s = lock s \<and> running s = running s \<and> last_execute_at s = last_execute_at s
    \<and> gap s = gap s \<and> bias s = bias s \<and> retry_count s = retry_count s \<and> callback s = callback s"
    by simp
next
  fix x s' r
  assume a: "lock x = lock s \<and> running x = running s
   \<and> last_execute_at x = last_execute_at s \<and> gap x = gap s \<and> bias x = bias s
   \<and> retry_count x = retry_count s \<and> callback x = callback s" and b: "select_pass x = Some (s', r)"
  show "lock s' = lock s \<and> running s' = running s
   \<and> last_execute_at s' = last_execute_at s \<and> gap s' = gap s \<and> bias s' = bias s
   \<and> retry_count s' = retry_count s \<and> callback s' = callback s"
    using a by (subst (1 2 3 4 5 6 7) select_pass_Some(4) [OF b]) simp
qed

lemma check_and_execute_phases:
  "\<not> lock s \<Longrightarrow>
   check_and_execute e s =
     (case suspended (clock e) s of
        None \<Rightarrow> (release (fst (select_task (clock e) (acquire s))), None)
      | Some (s', r) \<Rightarrow> (resume e s' r, Some r))"
  by (auto simp: check_and_execute_def suspended_def execute_next_def resume_def
      split: prod.splits option.splits)

text \<open>Claim C9. A call of \<^verbatim>\<open>check_and_execute\<close> made while the lock is held returns at
  once: the state is unchanged and nothing is dispatched (no sort, no aging, no pop, no
  action). A cycle that waits at an \<^verbatim>\<open>await\<close> holds the lock, so a call made then is such
  a no-op, and the lock stays held through whatever \<^verbatim>\<open>add_task\<close>, \<^verbatim>\<open>clear\<close> or
  \<^verbatim>\<open>remove_by_type\<close> other coroutines do meanwhile.\<close>

theorem cycle_in_progress_is_noop:
  "(lock s \<longrightarrow> check_and_execute e s = (s, None))
   \<and> (suspended clk s = Some (s', r) \<longrightarrow>
        lock s' \<and> check_and_execute e s' = (s', None)
      \<and> lock (fst (add_task s' x)) \<and> lock (clear s') \<and> lock (fst (remove_by_type s' t)))"
proof -
  have "lock s'" if "suspended clk s = Some (s', r)"
  proof -
    from that have "s' = fst (select_task clk (acquire s))"
      by (auto simp: suspended_def split: if_splits prod.splits option.splits)
    then show ?thesis
      using select_task_frame [of clk "acquire s"] by (simp add: acquire_def)
  qed
  then show ?thesis
    by (auto simp: check_and_execute_def add_task_def clear_def remove_by_type_def Let_def)
qed

theorem cycle_in_progress_is_noop_witness:
  "lock (acquire m3) \<and> check_and_execute e3 (acquire m3) = (acquire m3, None)
   \<and> suspended (clock e3) m3 = Some (fst (the (suspended (clock e3) m3)), 1)
   \<and> lock (fst (the (suspended (clock e3) m3)))
   \<and> check_and_execute e3 (fst (the (suspended (clock e3) m3)))
       = (fst (the (suspended (clock e3) m3)), None)"
proof -
  have h1: "lock (acquire m3)" by (simp add: acquire_def)
  have h2: "suspended (clock e3) m3 = Some (fst (the (suspended (clock e3) m3)), 1)"
    by (simp add: cycle_defs eval_defs)
  show ?thesis
    using h1 h2 cycle_in_progress_is_noop [of "acquire m3" e3 "clock e3" "fst (the (suspended (clock e3) m3))" 1]
      cycle_in_progress_is_noop [of m3 e3 "clock e3" "fst (the (suspended (clock e3) m3))" 1]
    by simp
qed

lemma select_pass_mset:
  "select_pass s = Some (s', r) \<Longrightarrow> mset (queue s) = add_mset r (mset (queue s'))"
  using select_pass_Some(1) [of s s' r] mset_sort [of "\<lambda>x. rank (tasks s x)" "queue s"]
  by simp

lemma select_pass_set:
  "select_pass s = Some (s', r) \<Longrightarrow> set (queue s) = insert r (set (queue s'))"
  using select_pass_mset [of s s' r] by (metis set_mset_add_mset_insert set_mset_mset)

lemma select_pass_distinct:
  "select_pass s = Some (s', r) \<Longrightarrow> distinct (queue s) \<Longrightarrow>
     distinct (queue s') \<and> r \<notin> set (queue s')"
  using select_pass_mset [of s s' r]
  by (metis distinct.simps(2) mset.simps(2) mset_eq_imp_distinct_iff)

lemma select_pass_minimal:
  assumes "select_pass s = Some (s', r)" and "x \<in> set (queue s)"
  shows "rank (tasks s r) \<le> rank (tasks s x)"
proof -
  have "sorted (map (\<lambda>x. rank (tasks s x)) (r # queue s'))"
    using select_pass_Some(1) [OF assms(1)] sorted_sort_key [of "\<lambda>x. rank (tasks s x)" "queue s"]
    by simp
  moreover have "x = r \<or> x \<in> set (queue s')"
    using select_pass_set [OF assms(1)] assms(2) by auto
  ultimately show ?thesis by auto
qed

lemma select_pass_stable:
  assumes "select_pass s = Some (s', r)"
  shows "filter (\<lambda>x. rank (tasks s x) = rank (tasks s r)) (queue s)
         = r # filter (\<lambda>x. rank (tasks s x) = rank (tasks s r)) (queue s')"
  using select_pass_Some(1) [OF assms]
    sort_key_stable [of "\<lambda>x. rank (tasks s x)" "rank (tasks s r)" "queue s"]
  by simp

lemma select_pass_fields:
  assumes "select_pass s = Some (s', r)"
  shows "tag (tasks s' x) = tag (tasks s x)" and "retry (tasks s' x) = retry (tasks s x)"
    and "expire_at (tasks s' x) = expire_at (tasks s x)" and "info (tasks s' x) = info (tasks s x)"
    and "expected_execute_time s' = expected_execute_time s"
    and "retry_count s' = retry_count s"
  using select_pass_Some(2) [OF assms] fold_age_one_fields [of "r # queue s'" "tasks s" x]
  by (simp_all, (subst select_pass_Some(4) [OF assms], simp add: expected_execute_time_def)+)

lemma select_pass_rank:
  assumes "select_pass s = Some (s', r)"
  shows "rank (tasks s' x) = rank (tasks s x) - int (count_list (queue s) x)"
proof -
  have "count_list (queue s) x = count_list (r # queue s') x"
    using select_pass_mset [OF assms] by (metis count_mset mset.simps(2))
  then show ?thesis
    using select_pass_Some(2) [OF assms] fold_age_one_rank [of "r # queue s'" "tasks s" x]
    by simp
qed

lemma distinct_count_list_one: "distinct xs \<Longrightarrow> x \<in> set xs \<Longrightarrow> count_list xs x = 1"
  by (induction xs) auto

lemma select_pass_rank_distinct:
  assumes "select_pass s = Some (s', r)" and "distinct (queue s)" and "x \<in> set (queue s)"
  shows "rank (tasks s' x) = rank (tasks s x) - 1"
  using select_pass_rank [OF assms(1), of x] distinct_count_list_one [OF assms(2,3)]
  by simp

lemma select_task_induct3 [case_names empty dispatch discard]:
  assumes "\<And>clk s. select_pass s = None \<Longrightarrow> P clk s"
    and "\<And>clk s s' r. select_pass s = Some (s', r) \<Longrightarrow> \<not> discards s' r (clk 0) \<Longrightarrow> P clk s"
    and "\<And>clk s s' r. select_pass s = Some (s', r) \<Longrightarrow> discards s' r (clk 0) \<Longrightarrow>
           P (\<lambda>k. clk (Suc k)) s' \<Longrightarrow> P clk s"
  shows "P clk s"
proof (induction clk s rule: select_task.induct)
  case (1 clk s)
  show ?case
  proof (cases "select_pass s")
    case None
    then show ?thesis by (rule assms(1))
  next
    case (Some p)
    obtain s' r where p: "p = (s', r)" by (cases p)
    have sp: "select_pass s = Some (s', r)" using Some p by simp
    show ?thesis
    proof (cases "discards s' r (clk 0)")
      case True
      have "P (\<lambda>k. clk (Suc k)) s'"
        using "1.IH" [of p s' r] Some p True by blast
      then show ?thesis
        using assms(3) [of s s' r clk] sp True by blast
    next
      case False
      show ?thesis
        using assms(2) [of s s' r clk] sp False by blast
    qed
  qed
qed


lemma select_task_subset: "set (queue (fst (select_task clk s))) \<subseteq> set (queue s)"
  by (rule select_task_invariant [where P = "\<lambda>x. set (queue x) \<subseteq> set (queue s)"])
     (auto dest: select_pass_set)









subsection \<open>The try statement\<close>





lemma snd_execute_next: "snd (execute_next e s) = snd (select_task (clock e) s)"
  by (simp add: execute_next_def split: prod.splits option.splits)

subsection \<open>Priority order\<close>

lemma select_task_order:
  "distinct (queue s) \<Longrightarrow> a \<in> set (queue s) \<Longrightarrow> b \<in> set (queue s) \<Longrightarrow>
   rank (tasks s a) < rank (tasks s b) \<Longrightarrow> select_task clk s = (s', Some b) \<Longrightarrow>
     a \<notin> set (queue s')
     \<and> ((\<exists>k. is_expired (tasks s a) (clk k)) \<or> is_expired (tasks s a) (expected_execute_time s))"
proof (induction clk s rule: select_task_induct3)
  case (empty clk s)
  then show ?case by (simp add: select_task_empty)
next
  case (dispatch clk s s1 r)
  then have "r = b" by (simp add: select_task_dispatch)
  then show ?case
    using select_pass_minimal [OF dispatch(1), of a] dispatch.prems by simp
next
  case (discard clk s s1 r)
  have nb: "r \<noteq> b"
    using select_pass_minimal [OF discard(1), of a] discard.prems by auto
  have rest: "select_task (\<lambda>k. clk (Suc k)) s1 = (s', Some b)"
    using discard by (simp add: select_task_discard)
  have d1: "distinct (queue s1)" "r \<notin> set (queue s1)"
    using select_pass_distinct [OF discard(1)] discard.prems by simp_all
  show ?case
  proof (cases "r = a")
    case True
    have "set (queue s') \<subseteq> set (queue s1)"
      using select_task_subset [of "\<lambda>k. clk (Suc k)" s1] rest by simp
    then have "a \<notin> set (queue s')" using d1 True by auto
    moreover have "is_expired (tasks s a) (clk 0) \<or> is_expired (tasks s a) (expected_execute_time s)"
      using discard(2) True select_pass_fields [OF discard(1)]
      by (simp add: discards_def is_expired_def)
    ultimately show ?thesis by auto
  next
    case False
    have mem: "a \<in> set (queue s1)" "b \<in> set (queue s1)"
      using select_pass_set [OF discard(1)] discard.prems False nb by auto
    have "rank (tasks s1 a) < rank (tasks s1 b)"
      using select_pass_rank_distinct [OF discard(1)] discard.prems by simp
    then have "a \<notin> set (queue s')
     \<and> ((\<exists>k. is_expired (tasks s1 a) (clk (Suc k)))
         \<or> is_expired (tasks s1 a) (expected_execute_time s1))"
      using discard.IH d1 mem rest by simp
    then show ?thesis
      using select_pass_fields [OF discard(1)] by (auto simp: is_expired_def)
  qed
qed

text \<open>Claim C7. The queue is sorted ascending by rank by a stable sort, and the pass pops the
  head of the sorted queue: a task of minimal rank, the earliest enqueued among those of
  that rank. Of two queued tasks with different ranks the one with the higher rank is
  therefore not the one popped, whatever the order of enqueueing; and in a queue that holds
  each task object once, a cycle dispatches the higher-ranked one only after it has popped
  the lower-ranked one in an earlier pass and discarded it as expired.\<close>

theorem lower_rank_selected_first:
  assumes "a \<in> set (queue s)" and "b \<in> set (queue s)"
    and "rank (tasks s a) < rank (tasks s b)"
  shows "sorted (map (\<lambda>x. rank (tasks s x)) (queue (sort_queue s)))
    \<and> mset (queue (sort_queue s)) = mset (queue s)
    \<and> (\<forall>k. filter (\<lambda>x. rank (tasks s x) = k) (queue (sort_queue s))
            = filter (\<lambda>x. rank (tasks s x) = k) (queue s))
    \<and> (\<exists>s1 r. select_pass s = Some (s1, r) \<and> r = hd (queue (sort_queue s)) \<and> r \<noteq> b
          \<and> (\<forall>x\<in>set (queue s). rank (tasks s r) \<le> rank (tasks s x))
          \<and> r = hd (filter (\<lambda>x. rank (tasks s x) = rank (tasks s r)) (queue s)))
    \<and> (distinct (queue s) \<and> snd (execute_next e s) = Some b \<longrightarrow>
          a \<notin> set (queue (fst (select_task (clock e) s)))
        \<and> ((\<exists>k. is_expired (tasks s a) (clock e k))
            \<or> is_expired (tasks s a) (expected_execute_time s)))"
proof -
  have "queue s \<noteq> []" using assms(1) by auto
  then obtain s1 r where sp: "select_pass s = Some (s1, r)"
    using select_pass_None [of s] by (cases "select_pass s") auto
  have "r \<noteq> b"
    using select_pass_minimal [OF sp, of a] assms by auto
  moreover have "r = hd (queue (sort_queue s))"
    using select_pass_Some(1) [OF sp] by (simp add: sort_queue_def)
  moreover have "\<forall>x\<in>set (queue s). rank (tasks s r) \<le> rank (tasks s x)"
    using select_pass_minimal [OF sp] by simp
  moreover have "r = hd (filter (\<lambda>x. rank (tasks s x) = rank (tasks s r)) (queue s))"
    using select_pass_stable [OF sp] by simp
  ultimately have pass: "\<exists>s1 r. select_pass s = Some (s1, r) \<and> r = hd (queue (sort_queue s))
          \<and> r \<noteq> b \<and> (\<forall>x\<in>set (queue s). rank (tasks s r) \<le> rank (tasks s x))
          \<and> r = hd (filter (\<lambda>x. rank (tasks s x) = rank (tasks s r)) (queue s))"
    using sp by blast
  have cyc: "a \<notin> set (queue (fst (select_task (clock e) s)))
        \<and> ((\<exists>k. is_expired (tasks s a) (clock e k))
            \<or> is_expired (tasks s a) (expected_execute_time s))"
    if "distinct (queue s)" and "snd (execute_next e s) = Some b"
  proof -
    from that(2) have "select_task (clock e) s = (fst (select_task (clock e) s), Some b)"
      by (simp add: snd_execute_next prod_eq_iff)
    then show ?thesis
      using select_task_order [OF that(1) assms, of "clock e" "fst (select_task (clock e) s)"]
      by simp
  qed
  have srt: "sorted (map (\<lambda>x. rank (tasks s x)) (queue (sort_queue s)))
    \<and> mset (queue (sort_queue s)) = mset (queue s)
    \<and> (\<forall>k. filter (\<lambda>x. rank (tasks s x) = k) (queue (sort_queue s))
            = filter (\<lambda>x. rank (tasks s x) = k) (queue s))"
    by (simp add: sort_queue_def sort_key_stable)
  show ?thesis using srt pass cyc by blast
qed

theorem lower_rank_selected_first_witness:
  "0 \<in> set (queue m3) \<and> 1 \<in> set (queue m3) \<and> rank (tasks m3 0) < rank (tasks m3 1)
   \<and> distinct (queue m3) \<and> snd (execute_next e3 m3) = Some 1
   \<and> hd (queue (sort_queue m3)) = 0
   \<and> 0 \<notin> set (queue (fst (select_task (clock e3) m3)))
   \<and> is_expired (tasks m3 0) (clock e3 0)"
proof -
  have h1: "0 \<in> set (queue m3)" and h2: "1 \<in> set (queue m3)"
    and h3: "rank (tasks m3 0) < rank (tasks m3 1)" and h4: "distinct (queue m3)"
    by (simp_all add: eval_defs)
  have h5: "snd (execute_next e3 m3) = Some 1"
    by (simp add: cycle_defs eval_defs)
  have h6: "hd (queue (sort_queue m3)) = 0" "is_expired (tasks m3 0) (clock e3 0)"
    by (simp_all add: eval_defs)
  show ?thesis
    using lower_rank_selected_first [OF h1 h2 h3, of e3] h1 h2 h3 h4 h5 h6 by simp
qed

subsection \<open>Expiry\<close>



subsection \<open>The counter invariant\<close>

lemma counter_ok_cong:
  "queue s' = queue s \<Longrightarrow> task_type_counter s' = task_type_counter s \<Longrightarrow>
   (\<And>x. tag (tasks s' x) = tag (tasks s x)) \<Longrightarrow> counter_ok s' = counter_ok s"
  by (simp add: counter_ok_def pending_of_def counter_get_def)

lemma counter_ok_init: "counter_ok (init_manager cb g b rc h)"
  by (simp add: counter_ok_def pending_of_def counter_get_def init_manager_def)

lemma counter_ok_add_task: "counter_ok s \<Longrightarrow> counter_ok (fst (add_task s r))"
  by (auto simp: counter_ok_def pending_of_def counter_get_def add_task_def Let_def)

lemma pending_of_select_pass:
  assumes "select_pass s = Some (s', r)"
  shows "pending_of s t = (if tag (tasks s r) = t then 1 else 0) + pending_of s' t"
proof -
  have "length (filter (\<lambda>x. tag (tasks s x) = t) (queue s))
        = size (filter_mset (\<lambda>x. tag (tasks s x) = t) (mset (queue s)))"
    by (metis mset_filter size_mset)
  also have "\<dots> = size (filter_mset (\<lambda>x. tag (tasks s x) = t) (add_mset r (mset (queue s'))))"
    using select_pass_mset [OF assms] by simp
  also have "\<dots> = (if tag (tasks s r) = t then 1 else 0)
                    + length (filter (\<lambda>x. tag (tasks s x) = t) (queue s'))"
    by (simp flip: mset_filter)
  finally show ?thesis
    using select_pass_fields(1) [OF assms] by (simp add: pending_of_def)
qed

lemma counter_ok_select_pass:
  assumes "counter_ok s" and "select_pass s = Some (s', r)"
  shows "counter_ok s'"
    and "counter_get s' (tag (tasks s r)) 0 = counter_get s (tag (tasks s r)) 0 - 1"
    and "t \<noteq> tag (tasks s r) \<Longrightarrow> counter_get s' t 0 = counter_get s t 0"
proof -
  let ?tg = "tag (tasks s r)"
  have p: "\<And>t. pending_of s t = (if ?tg = t then 1 else 0) + pending_of s' t"
    using pending_of_select_pass [OF assms(2)] .
  have c: "\<And>t. counter_get s t 0 = int (pending_of s t)"
    using assms(1) by (simp add: counter_ok_def)
  have "counter_get s ?tg 0 \<ge> 1" using c [of ?tg] p [of ?tg] by simp
  then have one: "counter_get s ?tg 1 = counter_get s ?tg 0" and pos: "counter_get s ?tg 0 - 1 \<ge> 0"
    by (auto simp: counter_get_def split: option.splits)
  have cnt: "task_type_counter s' = (task_type_counter s)(?tg \<mapsto> counter_get s ?tg 0 - 1)"
    using select_pass_Some(3) [OF assms(2)] one pos by simp
  show "counter_get s' ?tg 0 = counter_get s ?tg 0 - 1"
    using cnt by (simp add: counter_get_def)
  show "t \<noteq> ?tg \<Longrightarrow> counter_get s' t 0 = counter_get s t 0"
    using cnt by (simp add: counter_get_def)
  show "counter_ok s'"
    unfolding counter_ok_def
  proof
    fix t
    show "counter_get s' t 0 = int (pending_of s' t)"
    proof (cases "t = ?tg")
      case True
      have "counter_get s' ?tg 0 = counter_get s ?tg 0 - 1"
        using cnt by (simp add: counter_get_def)
      then show ?thesis using True c [of ?tg] p [of ?tg] by simp
    next
      case False
      have "counter_get s' t 0 = counter_get s t 0"
        using cnt False by (simp add: counter_get_def)
      then show ?thesis using False c [of t] p [of t] by simp
    qed
  qed
qed

lemma counter_ok_select_task: "counter_ok s \<Longrightarrow> counter_ok (fst (select_task clk s))"
  by (rule select_task_invariant [where P = counter_ok]) (auto dest: counter_ok_select_pass(1))

lemma counter_ok_on_failure: "counter_ok s \<Longrightarrow> counter_ok (on_failure s d)"
proof -
  assume a: "counter_ok s"
  have "counter_ok (s\<lparr>tasks := (tasks s)(d := (tasks s d)\<lparr>retry := retry (tasks s d) + 1\<rparr>)\<rparr>)"
    using a counter_ok_cong [of "s\<lparr>tasks := (tasks s)(d := (tasks s d)\<lparr>retry := retry (tasks s d) + 1\<rparr>)\<rparr>" s]
    by simp
  then show ?thesis
    using a by (simp add: on_failure_def counter_ok_add_task)
qed

lemma counter_ok_run_task: "counter_ok s \<Longrightarrow> counter_ok (run_task e s d)"
proof -
  assume a: "counter_ok s"
  have "counter_ok (s\<lparr>last_execute_at := finished_at e\<rparr>)"
    using a counter_ok_cong [of "s\<lparr>last_execute_at := finished_at e\<rparr>" s] by simp
  then show ?thesis
    using a by (cases "action e d") (simp_all add: run_task_def Let_def counter_ok_on_failure)
qed

lemma counter_ok_execute_next: "counter_ok s \<Longrightarrow> counter_ok (fst (execute_next e s))"
  using counter_ok_select_task [of s "clock e"]
  by (auto simp: execute_next_def counter_ok_run_task split: prod.splits option.splits)

lemma counter_ok_check_and_execute: "counter_ok s \<Longrightarrow> counter_ok (fst (check_and_execute e s))"
proof -
  assume a: "counter_ok s"
  have "counter_ok (acquire s)"
    using a counter_ok_cong [of "acquire s" s] by (simp add: acquire_def)
  then have "counter_ok (fst (execute_next e (acquire s)))"
    by (rule counter_ok_execute_next)
  then have "counter_ok (release (fst (execute_next e (acquire s))))"
    using counter_ok_cong [of "release (fst (execute_next e (acquire s)))" "fst (execute_next e (acquire s))"]
    by (simp add: release_def)
  then show ?thesis
    using a by (cases "execute_next e (acquire s)") (simp add: check_and_execute_def)
qed

lemma counter_ok_clear: "counter_ok (clear s)"
  by (simp add: counter_ok_def pending_of_def counter_get_def clear_def)

lemma counter_ok_remove_by_type: "counter_ok s \<Longrightarrow> counter_ok (fst (remove_by_type s t))"
  unfolding counter_ok_def
proof
  fix t'
  assume a: "\<forall>t. counter_get s t 0 = int (pending_of s t)"
  have eq: "filter (\<lambda>r. tag (tasks s r) = t') (filter (\<lambda>r. tag (tasks s r) \<noteq> t) (queue s))
            = (if t' = t then [] else filter (\<lambda>r. tag (tasks s r) = t') (queue s))"
    by (induction "queue s") (auto simp: filter_empty_conv intro: filter_cong)
  show "counter_get (fst (remove_by_type s t)) t' 0 = int (pending_of (fst (remove_by_type s t)) t')"
    using a [rule_format, of t'] eq
    by (simp add: remove_by_type_def Let_def pending_of_def counter_get_def)
qed

lemma fst_run_cycles_Cons:
  "fst (run_cycles (e # es) s) = fst (run_cycles es (fst (check_and_execute e s)))"
  by (auto split: prod.splits)


lemma counter_ok_run_cycles: "counter_ok s \<Longrightarrow> counter_ok (fst (run_cycles es s))"
proof (induction es arbitrary: s)
  case Nil
  then show ?case by simp
next
  case (Cons e es)
  have "counter_ok (fst (run_cycles es (fst (check_and_execute e s))))"
    using Cons.IH counter_ok_check_and_execute [OF Cons.prems] by simp
  then show ?case
    by (simp only: fst_run_cycles_Cons)
qed

lemma counter_ok_m3: "counter_ok m3"
  unfolding m3_def by (intro counter_ok_add_task counter_ok_init)

text \<open>Claim C4. \<open>counter_ok\<close>: for every task type the counter (0 when the key is absent)
  is the number of queued tasks of that type. It holds of a new manager and after
  \<^verbatim>\<open>clear\<close>, and it is preserved by \<^verbatim>\<open>add_task\<close>, by every pass of the selection loop, by
  the loop, by the \<^verbatim>\<open>try\<close> statement with its retry, by \<^verbatim>\<open>_execute_next\<close>,
  \<^verbatim>\<open>check_and_execute\<close>, \<^verbatim>\<open>remove_by_type\<close> and any sequence of cycles. A successful
  admission adds exactly 1 to the counter of the task's type; a pop takes exactly 1 from the
  counter of the popped task's type and leaves the other counters alone.\<close>

theorem counter_matches_queue:
  "counter_ok (init_manager cb g b rc h)
   \<and> counter_ok (clear s)
   \<and> (counter_ok s \<longrightarrow>
        counter_ok (fst (add_task s r))
      \<and> (snd (add_task s r) \<longrightarrow>
            counter_get (fst (add_task s r)) (tag (tasks s r)) 0
              = counter_get s (tag (tasks s r)) 0 + 1)
      \<and> (\<forall>s1 x. select_pass s = Some (s1, x) \<longrightarrow>
            counter_ok s1
          \<and> counter_get s1 (tag (tasks s x)) 0 = counter_get s (tag (tasks s x)) 0 - 1
          \<and> (\<forall>t'. t' \<noteq> tag (tasks s x) \<longrightarrow> counter_get s1 t' 0 = counter_get s t' 0))
      \<and> counter_ok (fst (select_task clk s))
      \<and> counter_ok (run_task e s d)
      \<and> counter_ok (fst (execute_next e s))
      \<and> counter_ok (fst (check_and_execute e s))
      \<and> counter_ok (fst (remove_by_type s t))
      \<and> counter_ok (fst (run_cycles es s)))"
proof -
  have "counter_get (fst (add_task s r)) (tag (tasks s r)) 0
              = counter_get s (tag (tasks s r)) 0 + 1" if "snd (add_task s r)"
    using that by (auto simp: add_task_def Let_def counter_get_def split: if_splits)
  then show ?thesis
    using counter_ok_init [of cb g b rc h] counter_ok_clear [of s] counter_ok_add_task [of s r]
      counter_ok_select_pass [of s] counter_ok_select_task [of s clk]
      counter_ok_run_task [of s e d] counter_ok_execute_next [of s e]
      counter_ok_check_and_execute [of s e] counter_ok_remove_by_type [of s t]
      counter_ok_run_cycles [of s es]
    by blast
qed

theorem counter_matches_queue_witness:
  "counter_ok m3
   \<and> snd (add_task m3 3)
   \<and> counter_get (fst (add_task m3 3)) INV 0 = 1
   \<and> counter_ok (fst (add_task m3 3))
   \<and> select_pass m3 = Some (fst (the (select_pass m3)), 0)
   \<and> counter_get m3 CMD 0 = 1
   \<and> counter_get (fst (the (select_pass m3))) CMD 0 = 0
   \<and> counter_get (fst (the (select_pass m3))) NB 0 = 1
   \<and> counter_ok (fst (check_and_execute e3 m3))
   \<and> counter_ok (fst (remove_by_type m3 NB))"
proof -
  have h0: "counter_ok m3" by (rule counter_ok_m3)
  have h1: "snd (add_task m3 3)" by (simp add: eval_defs)
  have h2: "select_pass m3 = Some (fst (the (select_pass m3)), 0)"
    by (simp add: eval_defs)
  have h3: "tag (tasks m3 3) = INV" "tag (tasks m3 0) = CMD" "counter_get m3 INV 0 = 0"
    "counter_get m3 CMD 0 = 1" "counter_get m3 NB 0 = 1"
    by (simp_all add: eval_defs)
  note T = counter_matches_queue [of True 2000 3000 2 store3 m3 3 "clock e3" e3 1 NB "[]"]
  have a: "counter_get (fst (the (select_pass m3))) (tag (tasks m3 0)) 0
             = counter_get m3 (tag (tasks m3 0)) 0 - 1"
    using T h0 h2 by blast
  have b: "NB \<noteq> tag (tasks m3 0) \<longrightarrow>
             counter_get (fst (the (select_pass m3))) NB 0 = counter_get m3 NB 0"
    using T h0 h2 by blast
  show ?thesis
    using T a b h0 h1 h2 h3 by simp
qed

subsection \<open>The lock does not change what a cycle does\<close>







lemma release_fields [simp]:
  "queue (release s) = queue s" "tasks (release s) = tasks s" "\<not> lock (release s)"
  "task_type_counter (release s) = task_type_counter s" "retry_count (release s) = retry_count s"
  "last_execute_at (release s) = last_execute_at s" "gap (release s) = gap s"
  "bias (release s) = bias s" "callback (release s) = callback s"
  by (simp_all add: release_def)

subsection \<open>One cycle on a queue without repeated references\<close>





subsection \<open>Aging\<close>




subsection \<open>The completion callback\<close>

lemma run_task_completed:
  "action e d = Returned \<Longrightarrow> \<not> (callback s \<and> callback_raises e) \<Longrightarrow>
     run_task e s d = s\<lparr>last_execute_at := finished_at e\<rparr>"
  by (auto simp: run_task_def Let_def)

text \<open>Claim C1, evaluated where the code departs from it. The queue holds one task with no
  retries so far; its action returns and the completion callback raises. The cycle has
  dispatched the task, has set \<^verbatim>\<open>_last_execute_at\<close>, and has put the task back in the queue
  with its retry counter at 1, so that the next cycle dispatches it again; with a callback
  that does not raise the queue is empty after the cycle.\<close>

theorem callback_failure_retries:
  "queue m_inv = [3] \<and> retry (tasks m_inv 3) = 0 \<and> callback m_inv
   \<and> action e_cb 3 = Returned \<and> callback_raises e_cb
   \<and> snd (check_and_execute e_cb m_inv) = Some 3
   \<and> queue (fst (check_and_execute e_cb m_inv)) = [3]
   \<and> retry (tasks (fst (check_and_execute e_cb m_inv)) 3) = 1
   \<and> last_execute_at (fst (check_and_execute e_cb m_inv)) = 10500
   \<and> snd (check_and_execute e3 (fst (check_and_execute e_cb m_inv))) = Some 3
   \<and> queue (fst (check_and_execute (e_cb\<lparr>callback_raises := False\<rparr>) m_inv)) = []"
  by (simp add: cycle_defs eval_defs2)

subsection \<open>Retries: every cycle on a non-empty queue uses up budget\<close>







lemma total_budget_release [simp]: "total_budget (release s) = total_budget s"
  by (simp add: total_budget_def budget_def release_def cong: map_cong)






subsection \<open>Counters never exceed the limit they were admitted under\<close>





subsection \<open>What a cycle leaves as it was\<close>



subsection \<open>A task that is not expired is dispatched or stays\<close>










subsection \<open>Construction, admission and the controller\<close>




text \<open>Claim C3. When the counter of the task's type has reached the limit of the type,
  \<^verbatim>\<open>add_task\<close> returns False and the state is unchanged. Otherwise it returns True, the task
  is appended to the queue, the counter of its type grows by exactly 1, the counters of the
  other types are unchanged, and no other field changes.\<close>

theorem add_task_admission:
  "(get_task_limit (tag (tasks s r)) \<le> counter_get s (tag (tasks s r)) 0 \<longrightarrow>
      add_task s r = (s, False))
   \<and> (counter_get s (tag (tasks s r)) 0 < get_task_limit (tag (tasks s r)) \<longrightarrow>
        snd (add_task s r) = True
      \<and> queue (fst (add_task s r)) = queue s @ [r]
      \<and> counter_get (fst (add_task s r)) (tag (tasks s r)) 0
          = counter_get s (tag (tasks s r)) 0 + 1
      \<and> (\<forall>t. t \<noteq> tag (tasks s r) \<longrightarrow>
            task_type_counter (fst (add_task s r)) t = task_type_counter s t)
      \<and> fst (add_task s r)
          = s\<lparr>queue := queue (fst (add_task s r)),
              task_type_counter := task_type_counter (fst (add_task s r))\<rparr>)"
  by (simp add: add_task_def Let_def counter_get_def)

theorem add_task_admission_witness:
  "snd (add_task (init_manager True 2000 3000 2 food_store) 0) = True
   \<and> queue (fst (add_task (init_manager True 2000 3000 2 food_store) 0)) = [0]
   \<and> add_task (fst (add_task (init_manager True 2000 3000 2 food_store) 0)) 1
       = (fst (add_task (init_manager True 2000 3000 2 food_store) 0), False)"
  using add_task_admission [of "init_manager True 2000 3000 2 food_store" 0]
    add_task_admission [of "fst (add_task (init_manager True 2000 3000 2 food_store) 0)" 1]
  by (simp add: init_manager_def food_store_def new_Task_def post_init_def counter_get_def
      get_task_limit_def get_default_rank_def TASK_SETTINGS_def add_task_def Let_def)

text \<open>Claim C8. \<^verbatim>\<open>update_state\<close> with the controller's current state changes nothing: the
  player state is kept and no \<^verbatim>\<open>emit\<close> is scheduled, hence no handler runs. With a
  different state it records the state in the player and the controller and schedules one
  \<^verbatim>\<open>emit\<close> of it.\<close>

theorem update_state_same_is_noop:
  "(current_state c = Some st \<longrightarrow> update_state c st = Inr c)
   \<and> (current_state c \<noteq> Some st \<longrightarrow>
        (\<exists>p. PlayerState_of_value (BotState_value st) = Some p
           \<and> update_state c st
               = Inr (c\<lparr>player_state := p, current_state := Some st,
                        emits := emits c @ [st]\<rparr>)))"
  by (cases st) (simp_all add: update_state_def PlayerState_of_value_def)

theorem update_state_same_is_noop_witness:
  "update_state \<lparr>current_state = Some RUNNING, player_state = P_RUNNING, emits = []\<rparr> RUNNING
     = Inr \<lparr>current_state = Some RUNNING, player_state = P_RUNNING, emits = []\<rparr>
   \<and> update_state \<lparr>current_state = Some RUNNING, player_state = P_RUNNING, emits = []\<rparr> BLOCKED
     = Inr \<lparr>current_state = Some BLOCKED, player_state = P_BLOCKED, emits = [BLOCKED]\<rparr>"
  using update_state_same_is_noop
      [of "\<lparr>current_state = Some RUNNING, player_state = P_RUNNING, emits = []\<rparr>" RUNNING]
    update_state_same_is_noop
      [of "\<lparr>current_state = Some RUNNING, player_state = P_RUNNING, emits = []\<rparr>" BLOCKED]
  by (simp add: PlayerState_of_value_def)

end
